theory Spec2Isabelle
  imports
    Complex_Main
    "HOL-Library.AList"
    "HOL-Library.Multiset"
    "HOL-Library.Char_ord"
    "HOL-Library.List_Lexorder"
begin

section \<open>Values, errors and account names\<close>

text \<open>
  The exceptions that \<^verbatim>\<open>beancount/core/realization.py\<close> raises. A failed
  \<^verbatim>\<open>assert\<close> is an \<open>AssertionError\<close>.
\<close>

datatype error = KeyError | ValueError | AssertionError

text \<open>
  Python is dynamically typed: the key and the value handed to
  \<^verbatim>\<open>RealAccount.__setitem__\<close>, the account name and the default handed to
  \<^verbatim>\<open>get\<close> are arbitrary objects. \<open>PyRef a\<close> is a reference to the RealAccount
  object stored at address \<open>a\<close>; two references are the same object (\<^verbatim>\<open>is\<close>)
  exactly when the addresses are equal.
\<close>

type_synonym addr = nat

datatype pyval = PyNone | PyStr string | PyInt int | PyRef addr

text \<open>
  Modelled from the spec: \<^verbatim>\<open>beancount/core/account.py\<close> is not part of the sources;
  the spec gives the separator as the configuration constant \<^verbatim>\<open>:\<close> and
  \<^verbatim>\<open>account.join\<close> as the join of the path segments with it.
\<close>

definition sep :: char where
  "sep = CHR '':''"

fun join :: "string list \<Rightarrow> string" where
  "join [] = []"
| "join [w] = w"
| "join (w # v # ws) = w @ sep # join (v # ws)"

text \<open>
  \<^verbatim>\<open>account_name.split(account.sep)\<close>: Python's \<^verbatim>\<open>str.split\<close> with a
  one-character separator cuts at every occurrence, so the empty string gives the
  one-element list holding the empty string.
\<close>

fun split :: "string \<Rightarrow> string list" where
  "split [] = [[]]"
| "split (c # cs) =
     (if c = sep then [] # split cs
      else (case split cs of [] \<Rightarrow> [[c]] | w # ws \<Rightarrow> (c # w) # ws))"

text \<open>\<^verbatim>\<open>s.endswith(k)\<close>.\<close>

definition endswith :: "string \<Rightarrow> string \<Rightarrow> bool" where
  "endswith s k = (length k \<le> length s \<and> drop (length s - length k) s = k)"

text \<open>
  The validity predicate for account names of the spec: at least one segment, and no
  segment empty.
\<close>

definition well_formed :: "string \<Rightarrow> bool" where
  "well_formed a = list_all (\<lambda>w. w \<noteq> []) (split a)"

section \<open>Lots, positions and inventories\<close>

type_synonym date = nat

record lot =
  currency :: string
  cost :: "(rat \<times> string) option"
  lot_date :: "date option"
  label :: "string option"

type_synonym position = "lot \<times> rat"

text \<open>
  Modelled from the spec: \<^verbatim>\<open>beancount/core/inventory.py\<close> is not part of the sources.
  The spec describes an Inventory as an unordered collection with at most one position
  per lot, where adding to an existing lot sums the quantities, and two inventories are
  equal iff they hold the same (lot, quantity) pairs once positions of quantity zero are
  dropped. An inventory is therefore the quantity held of every lot, zero for a lot that
  is not held. \<open>add_position\<close> is the operation with \<^verbatim>\<open>allow_negative = True\<close>, the
  only mode this module uses; in that mode it never fails.
\<close>

type_synonym inventory = "lot \<Rightarrow> rat"

definition Inventory :: inventory where
  "Inventory = (\<lambda>_. 0)"

definition add_position :: "inventory \<Rightarrow> position \<Rightarrow> inventory" where
  "add_position b p = b (fst p := b (fst p) + snd p)"

section \<open>Directives and postings\<close>

text \<open>
  An entry object as seen through a reference: its identity and its date. The
  back-reference \<^verbatim>\<open>posting.entry\<close> of a Posting to its Transaction is such a
  reference; this module reads only \<^verbatim>\<open>entry.date\<close> through it and compares
  entries with \<^verbatim>\<open>is\<close>.
\<close>

record entry_ref =
  oid :: nat
  date :: date

record posting =
  entry :: entry_ref
  p_account :: string
  position :: position

text \<open>
  The directives of \<^verbatim>\<open>beancount.core.data\<close>, with the fields this module reads.
  \<open>Price\<close> and \<open>Event\<close> stand for the kinds that are attached to no account.
\<close>

datatype directive =
    Transaction entry_ref string "posting list"
  | Open entry_ref string
  | Close entry_ref string
  | Balance entry_ref string
  | Note entry_ref string
  | Document entry_ref string
  | Pad entry_ref string string
  | Price entry_ref
  | Event entry_ref

fun ref_of :: "directive \<Rightarrow> entry_ref" where
  "ref_of (Transaction r _ _) = r"
| "ref_of (Open r _) = r"
| "ref_of (Close r _) = r"
| "ref_of (Balance r _) = r"
| "ref_of (Note r _) = r"
| "ref_of (Document r _) = r"
| "ref_of (Pad r _ _) = r"
| "ref_of (Price r) = r"
| "ref_of (Event r) = r"

text \<open>
  An element of a realized list: a Posting, or a directive other than a Transaction
  (\<^verbatim>\<open>isinstance(x, Posting)\<close> tells them apart).
\<close>

datatype item = IsPosting posting | IsEntry directive

section \<open>Grouping by account\<close>

text \<open>
  \<^verbatim>\<open>postings_map = collections.defaultdict(list)\<close>: a dict in insertion order.
  \<^verbatim>\<open>postings_map[k].append(x)\<close> creates the empty list under a new key first.
\<close>

type_synonym postings_map = "(string \<times> item list) list"

definition lookup_list :: "postings_map \<Rightarrow> string \<Rightarrow> item list" where
  "lookup_list m k = (case map_of m k of None \<Rightarrow> [] | Some xs \<Rightarrow> xs)"

definition append_item :: "postings_map \<Rightarrow> string \<Rightarrow> item \<Rightarrow> postings_map" where
  "append_item m k x = AList.update k (lookup_list m k @ [x]) m"

fun group_entry :: "postings_map \<Rightarrow> directive \<Rightarrow> postings_map" where
  "group_entry m (Transaction r n ps) =
     fold (\<lambda>p m'. append_item m' (p_account p) (IsPosting p)) ps m"
| "group_entry m (Open r a) = append_item m a (IsEntry (Open r a))"
| "group_entry m (Close r a) = append_item m a (IsEntry (Close r a))"
| "group_entry m (Balance r a) = append_item m a (IsEntry (Balance r a))"
| "group_entry m (Note r a) = append_item m a (IsEntry (Note r a))"
| "group_entry m (Document r a) = append_item m a (IsEntry (Document r a))"
| "group_entry m (Pad r a b) =
     append_item (append_item m a (IsEntry (Pad r a b))) b (IsEntry (Pad r a b))"
| "group_entry m (Price r) = m"
| "group_entry m (Event r) = m"

definition group_by_account :: "directive list \<Rightarrow> postings_map" where
  "group_by_account entries = fold (\<lambda>e m. group_entry m e) entries []"

text \<open>
  The grouping as the spec words it: what one directive contributes to the list of the
  account \<open>a\<close>.
\<close>

fun contribution :: "string \<Rightarrow> directive \<Rightarrow> item list" where
  "contribution a (Transaction r n ps) =
     map IsPosting (filter (\<lambda>p. p_account p = a) ps)"
| "contribution a (Pad r b c) =
     (if b = a then [IsEntry (Pad r b c)] else []) @
     (if c = a then [IsEntry (Pad r b c)] else [])"
| "contribution a (Open r b) = (if b = a then [IsEntry (Open r b)] else [])"
| "contribution a (Close r b) = (if b = a then [IsEntry (Close r b)] else [])"
| "contribution a (Balance r b) = (if b = a then [IsEntry (Balance r b)] else [])"
| "contribution a (Note r b) = (if b = a then [IsEntry (Note r b)] else [])"
| "contribution a (Document r b) = (if b = a then [IsEntry (Document r b)] else [])"
| "contribution a (Price r) = []"
| "contribution a (Event r) = []"

text \<open>The number of insertions the spec gives to one directive.\<close>

fun insertions :: "directive \<Rightarrow> nat" where
  "insertions (Transaction r n ps) = length ps"
| "insertions (Pad r b c) = 2"
| "insertions (Price r) = 0"
| "insertions (Event r) = 0"
| "insertions _ = 1"

section \<open>The realized-account tree\<close>

text \<open>
  A \<^verbatim>\<open>RealAccount\<close> object: its three attributes and, since the class is a
  \<^verbatim>\<open>dict\<close>, its own items in insertion order (the child references by key).
  The objects live in a store; an address is an index into it, and a new object takes
  the next free address.
\<close>

record real_account =
  account :: string
  postings :: "item list"
  balance :: inventory
  children :: "(string \<times> addr) list"

type_synonym heap = "real_account list"

text \<open>\<^verbatim>\<open>RealAccount(account_name)\<close>: the new store and the address of the object.\<close>

definition RealAccount :: "heap \<Rightarrow> string \<Rightarrow> heap \<times> addr" where
  "RealAccount h account_name =
     (h @ [\<lparr>account = account_name, postings = [], balance = Inventory, children = []\<rparr>],
      length h)"

text \<open>
  \<^verbatim>\<open>RealAccount.__setitem__(self, key, value)\<close>. Every object of the store is a
  RealAccount, so \<^verbatim>\<open>isinstance(value, RealAccount)\<close> holds exactly of a reference.
  \<^verbatim>\<open>dict.__setitem__\<close> replaces the value of a key that is present, in place, and
  appends a new key.
\<close>

definition setitem :: "heap \<Rightarrow> addr \<Rightarrow> pyval \<Rightarrow> pyval \<Rightarrow> error + heap" where
  "setitem h self key val =
     (case key of
        PyStr k \<Rightarrow>
          if k = [] then Inl KeyError
          else (case val of
                  PyRef v \<Rightarrow>
                    if \<not> endswith (account (h ! v)) k then Inl ValueError
                    else Inr (h[self := (h ! self)
                                  \<lparr>children := AList.update k v (children (h ! self))\<rparr>])
                | _ \<Rightarrow> Inl ValueError)
      | _ \<Rightarrow> Inl KeyError)"

section \<open>Balances\<close>

text \<open>
  \<^verbatim>\<open>compute_postings_balance(postings)\<close>: the positions of the Postings are added to
  an empty inventory, the other directives are skipped.
\<close>

definition compute_postings_balance :: "item list \<Rightarrow> inventory" where
  "compute_postings_balance xs =
     fold (\<lambda>x b. case x of IsPosting p \<Rightarrow> add_position b (position p) | IsEntry d \<Rightarrow> b)
       xs Inventory"

text \<open>
  Modelled from the spec: \<^verbatim>\<open>beancount/utils/misc_utils.py\<close> is not part of the
  sources. Its test gives \<^verbatim>\<open>index_key(sequence, value, key, cmp)\<close> as the index of
  the first element whose key compares true with the value, and \<^verbatim>\<open>None\<close> when there
  is none.
\<close>

fun index_key :: "'a list \<Rightarrow> 'b \<Rightarrow> ('a \<Rightarrow> 'b) \<Rightarrow> ('b \<Rightarrow> 'b \<Rightarrow> bool) \<Rightarrow> nat option" where
  "index_key [] v key cmp = None"
| "index_key (x # xs) v key cmp =
     (if cmp (key x) v then Some 0 else map_option Suc (index_key xs v key cmp))"

text \<open>\<^verbatim>\<open>operator.is_\<close> on two entries: the same object.\<close>

definition is_same :: "entry_ref \<Rightarrow> entry_ref \<Rightarrow> bool" where
  "is_same a b = (oid a = oid b)"

text \<open>
  A tuple yielded by \<^verbatim>\<open>iterate_with_balance\<close>: the entry, its postings of the list,
  the change and the balance after it. The balance is the value the shared inventory has
  at the moment of the \<^verbatim>\<open>yield\<close>.
\<close>

type_synonym row = "entry_ref \<times> posting list \<times> inventory \<times> inventory"

definition row_postings :: "row \<Rightarrow> posting list" where
  "row_postings r = fst (snd r)"

definition row_balance :: "row \<Rightarrow> inventory" where
  "row_balance r = snd (snd (snd r))"

text \<open>
  The flush of the entries of one date, written twice in the source (on a change of date
  and after the loop): the tuples yielded and the balance afterwards. The test
  \<^verbatim>\<open>if date_postings\<close> guards a loop over the same list and changes nothing.
\<close>

fun flush :: "(entry_ref \<times> posting list) list \<Rightarrow> inventory \<Rightarrow> row list \<times> inventory" where
  "flush [] bal = ([], bal)"
| "flush ((date_entry, date_postings) # rest) bal =
     (let change = fold (\<lambda>p c. add_position c (position p)) date_postings Inventory;
          bal' = fold (\<lambda>p b. add_position b (position p)) date_postings bal;
          (rows, bal'') = flush rest bal'
      in ((date_entry, date_postings, change, bal') # rows, bal''))"

record iter_state =
  running_balance :: inventory
  prev_date :: "date option"
  date_entries :: "(entry_ref \<times> posting list) list"

text \<open>The last part of the loop body: the item joins the entries of the current date.\<close>

definition pend :: "posting option \<Rightarrow> entry_ref \<Rightarrow> iter_state \<Rightarrow> iter_state" where
  "pend posting e st =
     (case posting of
        Some p \<Rightarrow>
          (case index_key (date_entries st) e fst is_same of
             None \<Rightarrow> st\<lparr>date_entries := date_entries st @ [(e, [p])]\<rparr>
           | Some index \<Rightarrow>
               st\<lparr>date_entries := (date_entries st)
                    [index := (fst (date_entries st ! index),
                               snd (date_entries st ! index) @ [p])]\<rparr>)
      | None \<Rightarrow> st\<lparr>date_entries := date_entries st @ [(e, [])]\<rparr>)"

text \<open>
  One turn of the loop: the tuples it yields and the next state, or the failed assertion
  on the order of the dates.
\<close>

definition step :: "iter_state \<Rightarrow> item \<Rightarrow> error + row list \<times> iter_state" where
  "step st posting_or_entry =
     (let (posting, e) =
            (case posting_or_entry of
               IsPosting p \<Rightarrow> (Some p, entry p)
             | IsEntry d \<Rightarrow> (None, ref_of d))
      in if Some (date e) \<noteq> prev_date st then
           if \<not> (prev_date st = None \<or> date e > the (prev_date st)) then Inl AssertionError
           else
             (let (rows, b) = flush (date_entries st) (running_balance st)
              in Inr (rows, pend posting e
                   (st\<lparr>running_balance := b, prev_date := Some (date e), date_entries := []\<rparr>)))
         else Inr ([], pend posting e st))"

text \<open>
  The generator, run to its end: the tuples yielded, and the exception that ended it, if
  any. The tuples yielded before a failure have been handed to the caller already.
\<close>

fun iterate_loop :: "iter_state \<Rightarrow> item list \<Rightarrow> row list \<times> error option" where
  "iterate_loop st [] = (fst (flush (date_entries st) (running_balance st)), None)"
| "iterate_loop st (x # xs) =
     (case step st x of
        Inl e \<Rightarrow> ([], Some e)
      | Inr (rows, st') \<Rightarrow>
          (let (more, failure) = iterate_loop st' xs in (rows @ more, failure)))"

definition iterate_with_balance :: "item list \<Rightarrow> row list \<times> error option" where
  "iterate_with_balance postings_or_entries =
     iterate_loop \<lparr>running_balance = Inventory, prev_date = None, date_entries = []\<rparr>
       postings_or_entries"

text \<open>The date of an element of the list, and the Postings among the elements.\<close>

fun item_date :: "item \<Rightarrow> date" where
  "item_date (IsPosting p) = date (entry p)"
| "item_date (IsEntry d) = date (ref_of d)"

fun postings_in :: "item list \<Rightarrow> posting list" where
  "postings_in [] = []"
| "postings_in (IsPosting p # xs) = p # postings_in xs"
| "postings_in (IsEntry d # xs) = postings_in xs"

text \<open>The positions of a list of postings, added to an inventory one by one.\<close>

definition add_all :: "posting list \<Rightarrow> inventory \<Rightarrow> inventory" where
  "add_all ps b = fold (\<lambda>p b. add_position b (position p)) ps b"

text \<open>What the spec asks of the key and of the child of an insertion.\<close>

definition valid_key :: "pyval \<Rightarrow> bool" where
  "valid_key key = (case key of PyStr k \<Rightarrow> k \<noteq> [] | _ \<Rightarrow> False)"

definition consistent_child :: "heap \<Rightarrow> pyval \<Rightarrow> pyval \<Rightarrow> bool" where
  "consistent_child h key val =
     (case (key, val) of (PyStr k, PyRef v) \<Rightarrow> endswith (account (h ! v)) k | _ \<Rightarrow> False)"

text \<open>A store of two objects: a root and the account \<^verbatim>\<open>Assets:Checking\<close>.\<close>

definition two_nodes :: heap where
  "two_nodes =
     [\<lparr>account = [], postings = [], balance = Inventory, children = []\<rparr>,
      \<lparr>account = ''Assets:Checking'', postings = [], balance = Inventory, children = []\<rparr>]"

text \<open>The number of list elements held by a grouping.\<close>

definition total_items :: "postings_map \<Rightarrow> nat" where
  "total_items m = sum_list (map (\<lambda>kv. length (snd kv)) m)"


text \<open>The dates of a list do not decrease, starting from the previous date, if any.\<close>

fun ordered_after :: "date option \<Rightarrow> item list \<Rightarrow> bool" where
  "ordered_after None xs = sorted (map item_date xs)"
| "ordered_after (Some d) xs = sorted (d # map item_date xs)"

text \<open>
  The tuples \<open>rs\<close> carry a running balance that starts at \<open>b\<close>: the change of a
  tuple is the sum of the positions of its postings, and its balance is the balance of
  the tuple before it (\<open>b\<close> for the first) with these positions added once.
\<close>

fun running :: "inventory \<Rightarrow> row list \<Rightarrow> bool" where
  "running b [] = True"
| "running b (r # rs) =
     (fst (snd (snd r)) = add_all (row_postings r) Inventory \<and>
      row_balance r = add_all (row_postings r) b \<and> running (row_balance r) rs)"

text \<open>The postings of all tuples, in the order yielded.\<close>

definition yielded_postings :: "row list \<Rightarrow> posting list" where
  "yielded_postings rows = concat (map row_postings rows)"

text \<open>The postings held back for the current date.\<close>

definition pending :: "iter_state \<Rightarrow> posting list" where
  "pending st = concat (map snd (date_entries st))"

text \<open>Three directives of one account, on the days 5, 5 and 3.\<close>

definition open_5 :: item where
  "open_5 = IsEntry (Open \<lparr>oid = 1, date = 5\<rparr> ''Assets:Checking'')"

definition note_5 :: item where
  "note_5 = IsEntry (Note \<lparr>oid = 2, date = 5\<rparr> ''Assets:Checking'')"

definition close_3 :: item where
  "close_3 = IsEntry (Close \<lparr>oid = 3, date = 3\<rparr> ''Assets:Checking'')"

text \<open>
  Three postings of one date on one account: two legs of the transaction 7, and between
  them a leg of the transaction 8.
\<close>

definition usd :: lot where
  "usd = \<lparr>currency = ''USD'', cost = None, lot_date = None, label = None\<rparr>"

definition leg :: "nat \<Rightarrow> rat \<Rightarrow> posting" where
  "leg n q = \<lparr>entry = \<lparr>oid = n, date = 5\<rparr>, p_account = ''Assets:Checking'', position = (usd, q)\<rparr>"

definition three_legs :: "item list" where
  "three_legs = [IsPosting (leg 7 100), IsPosting (leg 8 10), IsPosting (leg 7 5)]"

section \<open>Properties of the grouping\<close>

lemma lookup_append_item:
  "lookup_list (append_item m k x) a = lookup_list m a @ (if k = a then [x] else [])"
  by (simp add: lookup_list_def append_item_def update_conv')

lemma lookup_fold_postings:
  "lookup_list (fold (\<lambda>p m'. append_item m' (p_account p) (IsPosting p)) ps m) a =
     lookup_list m a @ map IsPosting (filter (\<lambda>p. p_account p = a) ps)"
  by (induction ps arbitrary: m) (simp_all add: lookup_append_item)

lemma lookup_group_entry:
  "lookup_list (group_entry m e) a = lookup_list m a @ contribution a e"
  by (cases e) (simp_all add: lookup_append_item lookup_fold_postings)

lemma lookup_fold_group:
  "lookup_list (fold (\<lambda>e m. group_entry m e) es m) a =
     lookup_list m a @ concat (map (contribution a) es)"
  by (induction es arbitrary: m) (simp_all add: lookup_group_entry)

lemma total_update:
  "distinct (map fst m) \<Longrightarrow>
   total_items (AList.update k v m) + length (lookup_list m k) = total_items m + length v"
  by (induction m) (auto simp: total_items_def lookup_list_def map_of_eq_None_iff image_iff split: option.splits)

lemma total_append_item:
  "distinct (map fst m) \<Longrightarrow> total_items (append_item m k x) = Suc (total_items m)"
  using total_update [of m k "lookup_list m k @ [x]"] by (simp add: append_item_def)

lemma distinct_append_item:
  "distinct (map fst m) \<Longrightarrow> distinct (map fst (append_item m k x))"
  by (simp add: append_item_def distinct_update)

lemma fold_postings_total:
  "distinct (map fst m) \<Longrightarrow>
   distinct (map fst (fold (\<lambda>p m'. append_item m' (p_account p) (IsPosting p)) ps m)) \<and>
   total_items (fold (\<lambda>p m'. append_item m' (p_account p) (IsPosting p)) ps m) =
     total_items m + length ps"
  by (induction ps arbitrary: m) (simp_all add: total_append_item distinct_append_item)

lemma group_entry_total:
  "distinct (map fst m) \<Longrightarrow>
   distinct (map fst (group_entry m e)) \<and>
   total_items (group_entry m e) = total_items m + insertions e"
  by (cases e) (simp_all add: total_append_item distinct_append_item fold_postings_total)

lemma fold_group_total:
  "distinct (map fst m) \<Longrightarrow>
   distinct (map fst (fold (\<lambda>e m. group_entry m e) es m)) \<and>
   total_items (fold (\<lambda>e m. group_entry m e) es m) =
     total_items m + sum_list (map insertions es)"
  by (induction es arbitrary: m) (simp_all add: group_entry_total)

lemma nonempty_update:
  "list_all (\<lambda>kv. snd kv \<noteq> []) m \<Longrightarrow> v \<noteq> [] \<Longrightarrow>
   list_all (\<lambda>kv. snd kv \<noteq> []) (AList.update k v m)"
  by (induction m) auto

lemma nonempty_append_item:
  "list_all (\<lambda>kv. snd kv \<noteq> []) m \<Longrightarrow> list_all (\<lambda>kv. snd kv \<noteq> []) (append_item m k x)"
  by (simp add: append_item_def nonempty_update)

text \<open>
  Claim C3. For every directive list and every account name, the list that
  \<open>group_by_account\<close> holds for the account is the concatenation, in the order of the
  input stream, of what each directive contributes to it: the postings of a Transaction
  on that account (never the Transaction itself), an Open, Close, Balance, Note or
  Document of that account, a Pad once for its source account and once for its pad
  account, and nothing for any other kind. The keys of the mapping are distinct, and the
  mapping holds one element per posting, one per account directive and exactly two per
  Pad.
\<close>

theorem group_by_account_lists:
  "lookup_list (group_by_account entries) a = concat (map (contribution a) entries) \<and>
   IsEntry (Transaction r n ps) \<notin> set (lookup_list (group_by_account entries) a) \<and>
   distinct (map fst (group_by_account entries)) \<and>
   total_items (group_by_account entries) = sum_list (map insertions entries)"
proof -
  have l: "lookup_list (group_by_account entries) a = concat (map (contribution a) entries)"
    using lookup_fold_group [of entries "[]" a]
    by (simp add: group_by_account_def lookup_list_def)
  have "IsEntry (Transaction r n ps) \<notin> set (contribution a e)" for e
    by (cases e) auto
  then have t: "IsEntry (Transaction r n ps) \<notin> set (concat (map (contribution a) entries))"
    by auto
  have d: "distinct (map fst (group_by_account entries)) \<and>
      total_items (group_by_account entries) = sum_list (map insertions entries)"
    using fold_group_total [of "[]" entries]
    by (simp add: group_by_account_def total_items_def)
  show ?thesis using l t d by simp
qed

section \<open>Properties of the insertion of a child\<close>

text \<open>
  Claim C9, as the code has it. \<open>__setitem__\<close> raises \<open>KeyError\<close> exactly when
  the key is not a non-empty string. It raises \<open>ValueError\<close> exactly when the key is a
  non-empty string and the child is not a RealAccount or its account name does not end
  with the key. Otherwise the insertion succeeds: the child is stored under the key, the
  other keys, the three attributes of the node and every other object are unchanged.
\<close>

theorem setitem_outcome:
  "(setitem h self key val = Inl KeyError \<longleftrightarrow> \<not> valid_key key) \<and>
   (setitem h self key val = Inl ValueError \<longleftrightarrow>
      valid_key key \<and> \<not> consistent_child h key val) \<and>
   (setitem h self key val \<noteq> Inl AssertionError) \<and>
   (valid_key key \<and> consistent_child h key val \<and> self < length h \<longrightarrow>
      (\<exists>h' k v. setitem h self key val = Inr h' \<and> key = PyStr k \<and> val = PyRef v \<and>
         map_of (children (h' ! self)) k = Some v \<and>
         (\<forall>k'. k' \<noteq> k \<longrightarrow> map_of (children (h' ! self)) k' = map_of (children (h ! self)) k') \<and>
         account (h' ! self) = account (h ! self) \<and>
         postings (h' ! self) = postings (h ! self) \<and>
         balance (h' ! self) = balance (h ! self) \<and>
         length h' = length h \<and>
         (\<forall>a. a \<noteq> self \<longrightarrow> h' ! a = h ! a)))"
  by (cases key; cases val)
     (auto simp: setitem_def valid_key_def consistent_child_def update_conv')

text \<open>
  Claim C9 as stated fails: a child whose name does not end with the key, and a child that
  is no RealAccount, raise \<open>ValueError\<close>, which is not a \<open>KeyError\<close>; and a key that
  is not a plain path segment (it holds the separator) is accepted when the name of the
  child ends with it.
\<close>

theorem setitem_counterexample:
  "setitem two_nodes 0 (PyStr ''Food'') (PyRef 1) = Inl ValueError \<and>
   setitem two_nodes 0 (PyStr ''Food'') (PyRef 1) \<noteq> Inl KeyError \<and>
   setitem two_nodes 0 (PyStr ''Checking'') PyNone = Inl ValueError \<and>
   setitem two_nodes 0 (PyStr ''Assets:Checking'') (PyRef 1) =
     Inr (two_nodes[0 := (two_nodes ! 0)\<lparr>children := [(''Assets:Checking'', 1)]\<rparr>])"
  by (simp add: setitem_def two_nodes_def endswith_def)

theorem setitem_outcome_witness:
  "valid_key (PyStr ''Checking'') \<and> consistent_child two_nodes (PyStr ''Checking'') (PyRef 1) \<and>
   (0::nat) < length two_nodes \<and>
   setitem two_nodes 0 (PyStr ''Checking'') (PyRef 1) =
     Inr (two_nodes[0 := (two_nodes ! 0)\<lparr>children := [(''Checking'', 1)]\<rparr>])"
  using setitem_outcome [of two_nodes 0 "PyStr ''Checking''" "PyRef 1"]
  by (simp add: setitem_def two_nodes_def endswith_def valid_key_def consistent_child_def)

section \<open>Properties of the iteration with balance\<close>

lemma step_prev_date:
  "step st x = Inr (rows, st') \<Longrightarrow> prev_date st' = Some (item_date x)"
  by (cases x) (auto simp: step_def pend_def Let_def split: if_splits prod.splits option.splits)

lemma step_fails_iff:
  "(\<exists>e. step st x = Inl e) \<longleftrightarrow> (\<exists>d. prev_date st = Some d \<and> item_date x < d)"
  by (cases x) (auto simp: step_def Let_def split: if_splits prod.splits)

lemma step_error:
  "step st x = Inl e \<Longrightarrow> e = AssertionError"
  by (cases x) (auto simp: step_def Let_def split: if_splits prod.splits)

lemma loop_Cons_ok:
  "step st x = Inr (rows, st') \<Longrightarrow>
   iterate_loop st (x # xs) = (rows @ fst (iterate_loop st' xs), snd (iterate_loop st' xs))"
  by (simp split: prod.splits)

lemma loop_Cons_fail:
  "step st x = Inl e \<Longrightarrow> iterate_loop st (x # xs) = ([], Some AssertionError)"
  by (auto dest: step_error)

declare iterate_loop.simps(2) [simp del]

lemma loop_failure_cases:
  "snd (iterate_loop st xs) = None \<or> snd (iterate_loop st xs) = Some AssertionError"
proof (induction xs arbitrary: st)
  case Nil
  show ?case by simp
next
  case (Cons x xs)
  show ?case
  proof (cases "step st x")
    case (Inl e)
    then show ?thesis by (simp add: loop_Cons_fail)
  next
    case (Inr p)
    obtain rows st' where "p = (rows, st')" by (cases p)
    then show ?thesis using Inr Cons.IH [of st'] by (simp add: loop_Cons_ok)
  qed
qed

lemma loop_ok_iff:
  "snd (iterate_loop st xs) = None \<longleftrightarrow> ordered_after (prev_date st) xs"
proof (induction xs arbitrary: st)
  case Nil
  show ?case by (cases "prev_date st") simp_all
next
  case (Cons x xs)
  show ?case
  proof (cases "step st x")
    case (Inl e)
    then have "\<exists>d. prev_date st = Some d \<and> item_date x < d"
      using step_fails_iff [of st x] by blast
    then show ?thesis using Inl by (auto simp: loop_Cons_fail)
  next
    case (Inr p)
    obtain rows st' where p: "p = (rows, st')" by (cases p)
    have pd: "prev_date st' = Some (item_date x)"
      using Inr p step_prev_date by blast
    have nf: "\<not> (\<exists>d. prev_date st = Some d \<and> item_date x < d)"
      using step_fails_iff [of st x] Inr by auto
    have "snd (iterate_loop st (x # xs)) = snd (iterate_loop st' xs)"
      using Inr p by (simp add: loop_Cons_ok)
    moreover have "snd (iterate_loop st' xs) = None \<longleftrightarrow> sorted (item_date x # map item_date xs)"
      using Cons.IH [of st'] pd by simp
    ultimately have eq: "snd (iterate_loop st (x # xs)) = None \<longleftrightarrow>
        sorted (item_date x # map item_date xs)" by simp
    show ?thesis
    proof (cases "prev_date st")
      case None
      then show ?thesis using eq by simp
    next
      case (Some d)
      then have "d \<le> item_date x" using nf by (simp add: not_less)
      then show ?thesis using eq Some by (auto intro: order_trans)
    qed
  qed
qed

lemma iterate_ok_iff:
  "snd (iterate_with_balance xs) = None \<longleftrightarrow> sorted (map item_date xs)"
  by (simp add: iterate_with_balance_def loop_ok_iff)

lemma iterate_fails_iff:
  "snd (iterate_with_balance xs) = Some AssertionError \<longleftrightarrow> \<not> sorted (map item_date xs)"
  using iterate_ok_iff [of xs]
    loop_failure_cases [of "\<lparr>running_balance = Inventory, prev_date = None, date_entries = []\<rparr>" xs]
  by (auto simp: iterate_with_balance_def)

lemma length_flush: "length (fst (flush des b)) = length des"
  by (induction des arbitrary: b) (auto simp: Let_def split_beta)

lemma pend_nonempty: "date_entries (pend po e st) \<noteq> []"
  by (auto simp: pend_def split: option.splits)

lemma step_nonempty: "step st x = Inr (rows, st') \<Longrightarrow> date_entries st' \<noteq> []"
  by (cases x) (auto simp: step_def Let_def pend_nonempty split: if_splits prod.splits)

lemma loop_append_fail:
  "snd (iterate_loop st pre) = None \<Longrightarrow> pre \<noteq> [] \<Longrightarrow> item_date x < item_date (last pre) \<Longrightarrow>
   snd (iterate_loop st (pre @ x # rest)) = Some AssertionError \<and>
   (\<exists>more. more \<noteq> [] \<and>
      fst (iterate_loop st pre) = fst (iterate_loop st (pre @ x # rest)) @ more)"
proof (induction pre arbitrary: st)
  case Nil
  then show ?case by simp
next
  case (Cons y pre)
  from Cons.prems(1) obtain rows st' where st: "step st y = Inr (rows, st')"
    by (cases "step st y") (auto simp: loop_Cons_fail)
  have ok': "snd (iterate_loop st' pre) = None"
    using Cons.prems(1) st by (simp add: loop_Cons_ok)
  show ?case
  proof (cases "pre = []")
    case True
    have "prev_date st' = Some (item_date y)" using st by (rule step_prev_date)
    then have "\<exists>e. step st' x = Inl e"
      using Cons.prems(3) True step_fails_iff [of st' x] by simp
    then obtain e where "step st' x = Inl e" ..
    then have f: "iterate_loop st' (x # rest) = ([], Some AssertionError)"
      by (rule loop_Cons_fail)
    have "fst (flush (date_entries st') (running_balance st')) \<noteq> []"
      using length_flush [of "date_entries st'" "running_balance st'"] step_nonempty [OF st]
      by auto
    then show ?thesis using True st f by (simp add: loop_Cons_ok)
  next
    case False
    then have "item_date x < item_date (last pre)" using Cons.prems(3) by simp
    from Cons.IH [OF ok' False this] show ?thesis using st by (simp add: loop_Cons_ok)
  qed
qed

lemma add_position_commute:
  "add_position (add_position b p) q = add_position (add_position b q) p"
  by (auto simp: add_position_def fun_eq_iff)

lemma add_all_mset:
  assumes "mset ps = mset qs"
  shows "add_all ps b = add_all qs b"
proof -
  have "fold (\<lambda>p b. add_position b (position p)) ps = fold (\<lambda>p b. add_position b (position p)) qs"
    by (rule fold_multiset_equiv) (auto simp: assms fun_eq_iff add_position_commute)
  then show ?thesis by (simp add: add_all_def)
qed

lemma add_all_Nil: "add_all [] b = b"
  by (simp add: add_all_def)

lemma add_all_append: "add_all (ps @ qs) b = add_all qs (add_all ps b)"
  by (simp add: add_all_def)

lemma compute_postings_balance_eq:
  "compute_postings_balance xs = add_all (postings_in xs) Inventory"
proof -
  have "fold (\<lambda>x b. case x of IsPosting p \<Rightarrow> add_position b (position p) | IsEntry d \<Rightarrow> b) xs b =
      add_all (postings_in xs) b" for b
    by (induction xs arbitrary: b rule: postings_in.induct) (simp_all add: add_all_def)
  then show ?thesis by (simp add: compute_postings_balance_def)
qed

lemma running_append:
  "running b (rs @ rs') \<longleftrightarrow> running b rs \<and> running (add_all (yielded_postings rs) b) rs'"
  by (induction rs arbitrary: b) (auto simp: yielded_postings_def add_all_append add_all_Nil)

lemma running_nth:
  "running b rs \<Longrightarrow> i < length rs \<Longrightarrow>
   row_balance (rs ! i) = add_all (yielded_postings (take (Suc i) rs)) b"
proof (induction rs arbitrary: b i)
  case Nil then show ?case by simp
next
  case (Cons r rs)
  then show ?case
    by (cases i) (auto simp: yielded_postings_def add_all_append add_all_Nil)
qed

lemma flush_Cons:
  "flush ((e, ps) # rest) b =
     ((e, ps, add_all ps Inventory, add_all ps b) # fst (flush rest (add_all ps b)),
      snd (flush rest (add_all ps b)))"
  by (simp add: Let_def split_beta add_all_def)

lemma flush_running:
  "running b (fst (flush des b)) \<and>
   yielded_postings (fst (flush des b)) = concat (map snd des) \<and>
   snd (flush des b) = add_all (concat (map snd des)) b"
proof (induction des arbitrary: b)
  case Nil
  show ?case by (simp add: yielded_postings_def add_all_Nil)
next
  case (Cons d des)
  obtain e ps where d: "d = (e, ps)" by (cases d)
  show ?case
    using Cons [of "add_all ps b"] unfolding d flush_Cons
    by (simp add: yielded_postings_def row_postings_def row_balance_def add_all_append)
qed

lemma index_key_bound: "index_key xs v k c = Some i \<Longrightarrow> i < length xs"
  by (induction xs arbitrary: i) (auto split: if_splits)

lemma mset_concat_update:
  "i < length des \<Longrightarrow>
   mset (concat (map snd (des[i := (fst (des ! i), snd (des ! i) @ [p])]))) =
     mset (concat (map snd des)) + {#p#}"
  by (induction des arbitrary: i) (auto simp: nth_Cons split: nat.splits)

lemma pend_pending:
  "mset (pending (pend po e st)) = mset (pending st) + mset (case po of None \<Rightarrow> [] | Some p \<Rightarrow> [p])"
  by (auto simp: pend_def pending_def mset_concat_update index_key_bound split: option.splits)

lemma pend_balance: "running_balance (pend po e st) = running_balance st"
  by (auto simp: pend_def split: option.splits)

lemma step_running:
  assumes "step st x = Inr (rows, st')"
  shows "running (running_balance st) rows"
    and "running_balance st' = add_all (yielded_postings rows) (running_balance st)"
    and "mset (yielded_postings rows) + mset (pending st') =
           mset (pending st) + mset (postings_in [x])"
proof -
  obtain po e where pe: "(case x of IsPosting p \<Rightarrow> (Some p, entry p) | IsEntry d \<Rightarrow> (None, ref_of d)) = (po, e)"
    by (cases x) auto
  have po: "mset (case po of None \<Rightarrow> [] | Some p \<Rightarrow> [p]) = mset (postings_in [x])"
    using pe by (cases x) auto
  show "running (running_balance st) rows"
    using assms pe flush_running [of "running_balance st" "date_entries st"]
    by (auto simp: step_def Let_def split: if_splits prod.splits)
  show "running_balance st' = add_all (yielded_postings rows) (running_balance st)"
    using assms pe flush_running [of "running_balance st" "date_entries st"]
    by (auto simp: step_def Let_def pend_balance yielded_postings_def add_all_def pending_def
             split: if_splits prod.splits)
  have clear: "pending (s\<lparr>date_entries := []\<rparr>) = []" for s :: iter_state
    by (simp add: pending_def)
  have fl: "yielded_postings (fst (flush (date_entries st) (running_balance st))) = pending st"
    using flush_running [of "running_balance st" "date_entries st"] by (simp add: pending_def)
  show "mset (yielded_postings rows) + mset (pending st') =
           mset (pending st) + mset (postings_in [x])"
  proof (cases "Some (date e) \<noteq> prev_date st")
    case True
    then have "rows = fst (flush (date_entries st) (running_balance st))"
      and "st' = pend po e (st\<lparr>running_balance := snd (flush (date_entries st) (running_balance st)),
              prev_date := Some (date e), date_entries := []\<rparr>)"
      using assms pe by (auto simp: step_def Let_def split: if_splits prod.splits)
    then show ?thesis using po fl
      by (simp add: pend_pending clear)
  next
    case False
    then have "rows = []" and "st' = pend po e st"
      using assms pe by (auto simp: step_def Let_def split: if_splits prod.splits)
    then show ?thesis using po by (simp add: pend_pending yielded_postings_def)
  qed
qed

lemma loop_running:
  "snd (iterate_loop st xs) = None \<Longrightarrow>
   running (running_balance st) (fst (iterate_loop st xs)) \<and>
   mset (yielded_postings (fst (iterate_loop st xs))) = mset (pending st) + mset (postings_in xs)"
proof (induction xs arbitrary: st)
  case Nil
  then show ?case using flush_running [of "running_balance st" "date_entries st"]
    by (simp add: pending_def)
next
  case (Cons x xs)
  from Cons.prems obtain rows st' where st: "step st x = Inr (rows, st')"
    by (cases "step st x") (auto simp: loop_Cons_fail)
  have ok': "snd (iterate_loop st' xs) = None"
    using Cons.prems st by (simp add: loop_Cons_ok)
  note ih = Cons.IH [OF ok']
  note sr = step_running [OF st]
  have px: "postings_in (x # xs) = postings_in [x] @ postings_in xs"
    by (cases x) simp_all
  have 1: "running (running_balance st) (rows @ fst (iterate_loop st' xs))"
    using ih sr by (simp add: running_append)
  have "mset (yielded_postings (rows @ fst (iterate_loop st' xs))) =
      mset (yielded_postings rows) + (mset (pending st') + mset (postings_in xs))"
    using ih by (simp add: yielded_postings_def)
  also have "\<dots> = mset (pending st) + mset (postings_in (x # xs))"
    using sr(3) px by (simp add: add.assoc [symmetric])
  finally show ?case using 1 st by (simp add: loop_Cons_ok)
qed

lemma loop_rows_nonempty:
  "snd (iterate_loop st xs) = None \<Longrightarrow> xs \<noteq> [] \<or> date_entries st \<noteq> [] \<Longrightarrow> fst (iterate_loop st xs) \<noteq> []"
proof (induction xs arbitrary: st)
  case Nil
  then show ?case using length_flush [of "date_entries st" "running_balance st"] by auto
next
  case (Cons x xs)
  from Cons.prems obtain rows st' where st: "step st x = Inr (rows, st')"
    by (cases "step st x") (auto simp: loop_Cons_fail)
  have ok': "snd (iterate_loop st' xs) = None"
    using Cons.prems st by (simp add: loop_Cons_ok)
  show ?case using Cons.IH [OF ok'] step_nonempty [OF st] st by (simp add: loop_Cons_ok)
qed

lemma sorted_nth_violation:
  "i < j \<Longrightarrow> j < length xs \<Longrightarrow> item_date (xs ! j) < item_date (xs ! i) \<Longrightarrow>
   \<not> sorted (map item_date xs)"
proof
  assume a: "i < j" "j < length xs" "item_date (xs ! j) < item_date (xs ! i)"
    and s: "sorted (map item_date xs)"
  have "map item_date xs ! i \<le> map item_date xs ! j"
    using s a(1,2) by (intro sorted_nth_mono) simp_all
  then show False using a by simp
qed

text \<open>
  Claim C5. \<open>iterate_with_balance\<close> ends with the failed assertion on the order of the
  dates exactly when the dates of the list decrease somewhere, and ends normally exactly
  when they never decrease; equal consecutive dates do not fail. In particular it fails
  for a list with two entries of which the later has the strictly smaller date. At the
  first entry that is out of order the generator has yielded strictly fewer tuples than
  it yields for the entries before it alone, so it yields nothing for that entry.
\<close>

theorem iterate_date_order:
  "(snd (iterate_with_balance xs) = Some AssertionError \<longleftrightarrow> \<not> sorted (map item_date xs)) \<and>
   (snd (iterate_with_balance xs) = None \<longleftrightarrow> sorted (map item_date xs)) \<and>
   (i < j \<and> j < length xs \<and> item_date (xs ! j) < item_date (xs ! i) \<longrightarrow>
      snd (iterate_with_balance xs) = Some AssertionError) \<and>
   (sorted (map item_date pre) \<and> pre \<noteq> [] \<and> item_date x < item_date (last pre) \<longrightarrow>
      snd (iterate_with_balance (pre @ x # rest)) = Some AssertionError \<and>
      (\<exists>more. more \<noteq> [] \<and>
         fst (iterate_with_balance pre) = fst (iterate_with_balance (pre @ x # rest)) @ more))"
proof -
  have 1: "snd (iterate_with_balance xs) = Some AssertionError \<longleftrightarrow> \<not> sorted (map item_date xs)"
    by (rule iterate_fails_iff)
  have 2: "snd (iterate_with_balance xs) = None \<longleftrightarrow> sorted (map item_date xs)"
    by (rule iterate_ok_iff)
  have 3: "i < j \<and> j < length xs \<and> item_date (xs ! j) < item_date (xs ! i) \<longrightarrow>
      snd (iterate_with_balance xs) = Some AssertionError"
    using 1 sorted_nth_violation [of i j xs] by blast
  have 4: "sorted (map item_date pre) \<and> pre \<noteq> [] \<and> item_date x < item_date (last pre) \<longrightarrow>
      snd (iterate_with_balance (pre @ x # rest)) = Some AssertionError \<and>
      (\<exists>more. more \<noteq> [] \<and>
         fst (iterate_with_balance pre) = fst (iterate_with_balance (pre @ x # rest)) @ more)"
    using loop_append_fail [of "\<lparr>running_balance = Inventory, prev_date = None, date_entries = []\<rparr>" pre x rest]
      iterate_ok_iff [of pre]
    by (simp add: iterate_with_balance_def)
  show ?thesis using 1 2 3 4 by blast
qed

theorem iterate_date_order_witness:
  "(0::nat) < 1 \<and> 1 < length [open_5, close_3] \<and>
   item_date ([open_5, close_3] ! 1) < item_date ([open_5, close_3] ! 0) \<and>
   sorted (map item_date [open_5]) \<and> [open_5] \<noteq> [] \<and> item_date close_3 < item_date (last [open_5]) \<and>
   snd (iterate_with_balance [open_5, close_3]) = Some AssertionError \<and>
   fst (iterate_with_balance [open_5, close_3]) = [] \<and>
   sorted (map item_date [open_5, note_5]) \<and>
   snd (iterate_with_balance [open_5, note_5]) = None"
  using iterate_date_order [of "[open_5, close_3]" 0 1 "[open_5]" close_3 "[]"]
    iterate_date_order [of "[open_5, note_5]" 0 1 "[open_5]" close_3 "[]"]
  by (simp add: open_5_def close_3_def note_5_def iterate_with_balance_def iterate_loop.simps
        step_def pend_def Let_def)

text \<open>
  Claim C2. For a list in date order, \<open>iterate_with_balance\<close> ends normally; the
  tuples carry a running balance from the empty inventory, the postings of the tuples are
  the postings of the list, each exactly once (also when several postings of one
  transaction stand on one date); the balance of the last tuple is the inventory that
  \<open>compute_postings_balance\<close> folds from the list, and folding the positions in any
  other order gives the same inventory.
\<close>

theorem iterate_final_balance:
  "sorted (map item_date xs) \<Longrightarrow>
   snd (iterate_with_balance xs) = None \<and>
   running Inventory (fst (iterate_with_balance xs)) \<and>
   mset (yielded_postings (fst (iterate_with_balance xs))) = mset (postings_in xs) \<and>
   (xs \<noteq> [] \<longrightarrow> fst (iterate_with_balance xs) \<noteq> [] \<and>
      row_balance (last (fst (iterate_with_balance xs))) = compute_postings_balance xs) \<and>
   (\<forall>ys. mset ys = mset (postings_in xs) \<longrightarrow> add_all ys Inventory = compute_postings_balance xs)"
proof -
  assume s: "sorted (map item_date xs)"
  let ?st = "\<lparr>running_balance = Inventory, prev_date = None, date_entries = []\<rparr>"
  let ?rows = "fst (iterate_with_balance xs)"
  have ok: "snd (iterate_loop ?st xs) = None" using s by (simp add: loop_ok_iff)
  have r: "running Inventory ?rows" and m: "mset (yielded_postings ?rows) = mset (postings_in xs)"
    using loop_running [OF ok] by (simp_all add: iterate_with_balance_def pending_def)
  have ind: "add_all ys Inventory = compute_postings_balance xs"
    if "mset ys = mset (postings_in xs)" for ys
    using add_all_mset [OF that] by (simp add: compute_postings_balance_eq)
  have l: "?rows \<noteq> [] \<and> row_balance (last ?rows) = compute_postings_balance xs" if "xs \<noteq> []"
  proof -
    have ne: "?rows \<noteq> []"
      using loop_rows_nonempty [OF ok] that by (simp add: iterate_with_balance_def)
    then have "row_balance (?rows ! (length ?rows - 1)) =
        add_all (yielded_postings (take (Suc (length ?rows - 1)) ?rows)) Inventory"
      by (intro running_nth [OF r]) simp
    then have "row_balance (last ?rows) = add_all (yielded_postings ?rows) Inventory"
      using ne by (simp add: last_conv_nth)
    then show ?thesis using ne ind [OF m] by simp
  qed
  show ?thesis using ok r m l ind by (simp add: iterate_with_balance_def)
qed

theorem iterate_final_balance_witness:
  "sorted (map item_date three_legs) \<and>
   snd (iterate_with_balance three_legs) = None \<and>
   map row_postings (fst (iterate_with_balance three_legs)) = [[leg 7 100, leg 7 5], [leg 8 10]] \<and>
   row_balance (last (fst (iterate_with_balance three_legs))) = compute_postings_balance three_legs \<and>
   compute_postings_balance three_legs usd = 115"
proof -
  have s: "sorted (map item_date three_legs)"
    by (simp add: three_legs_def leg_def)
  have ne: "three_legs \<noteq> []"
    by (simp add: three_legs_def)
  have rows: "map row_postings (fst (iterate_with_balance three_legs)) =
      [[leg 7 100, leg 7 5], [leg 8 10]]"
    by (simp add: three_legs_def leg_def iterate_with_balance_def iterate_loop.simps
          step_def pend_def Let_def is_same_def row_postings_def)
  have total: "compute_postings_balance three_legs usd = 115"
    by (simp add: three_legs_def leg_def compute_postings_balance_def add_position_def
          Inventory_def)
  from iterate_final_balance [OF s] ne
  have "snd (iterate_with_balance three_legs) = None"
    and "row_balance (last (fst (iterate_with_balance three_legs))) =
      compute_postings_balance three_legs"
    by blast+
  then show ?thesis using s rows total by blast
qed

end
